theory Spec2Isabelle
  imports Main
begin

section \<open>Strings\<close>

text \<open>
  The program \<^verbatim>\<open>build_calendar.py\<close> works on Python strings, sequences of code
  points. They are modelled as \<^typ>\<open>string\<close>, one \<^typ>\<open>char\<close> for one code point
  (so the model holds the code points below 256). The functions that edit calendar text
  compare characters with ASCII characters only and copy every other character.
\<close>

abbreviation CR :: char where "CR \<equiv> CHR 0x0D"
abbreviation LF :: char where "LF \<equiv> CHR 0x0A"
abbreviation CRLF :: string where "CRLF \<equiv> [CR, LF]"

text \<open>\<^verbatim>\<open>s.startswith(p)\<close>.\<close>

definition startswith :: "string \<Rightarrow> string \<Rightarrow> bool" where
  "startswith s p = (take (length p) s = p)"

text \<open>\<^verbatim>\<open>sub in s\<close>: \<open>sub\<close> occurs in \<open>s\<close> at some position.\<close>

fun contains :: "string \<Rightarrow> string \<Rightarrow> bool" where
  "contains [] sub = (sub = [])"
| "contains (c # cs) sub = (startswith (c # cs) sub \<or> contains cs sub)"

text \<open>
  \<^verbatim>\<open>s.replace(old, new)\<close>: the occurrences of \<open>old\<close> are found from left to right
  and do not overlap; with an empty \<open>old\<close>, \<open>new\<close> goes before every character and at
  the end.
\<close>

function replace :: "string \<Rightarrow> string \<Rightarrow> string \<Rightarrow> string" where
  "replace old new [] = (if old = [] then new else [])"
| "replace old new (c # cs) =
     (if old = [] then new @ c # replace old new cs
      else if startswith (c # cs) old then new @ replace old new (drop (length old) (c # cs))
      else c # replace old new cs)"
  by pat_completeness auto
termination
  by (relation "measure (\<lambda>(old, new, s). length s)") auto

text \<open>\<^verbatim>\<open>s.split("\r\n")\<close>: the pieces between the occurrences of CR LF.\<close>

fun cons_head :: "char \<Rightarrow> string list \<Rightarrow> string list" where
  "cons_head c [] = [[c]]"
| "cons_head c (l # ls) = (c # l) # ls"

fun split_crlf :: "string \<Rightarrow> string list" where
  "split_crlf [] = [[]]"
| "split_crlf [c] = [[c]]"
| "split_crlf (c # d # cs) =
     (if c = CR \<and> d = LF then [] # split_crlf cs else cons_head c (split_crlf (d # cs)))"

text \<open>\<^verbatim>\<open>sep.join(ls)\<close>.\<close>

fun join :: "string \<Rightarrow> string list \<Rightarrow> string" where
  "join sep [] = []"
| "join sep [l] = l"
| "join sep (l # ls) = l @ sep @ join sep ls"

text \<open>The decimal text of an integer, as an f-string prints it.\<close>

definition digit_char :: "nat \<Rightarrow> char" where
  "digit_char d = ''0123456789'' ! d"

fun digits :: "nat \<Rightarrow> string" where
  "digits n = (if n < 10 then [digit_char n] else digits (n div 10) @ [digit_char (n mod 10)])"

definition str_int :: "int \<Rightarrow> string" where
  "str_int i = (if i < 0 then ''-'' @ digits (nat (- i)) else digits (nat i))"

text \<open>
  \<^verbatim>\<open>re.sub(r"\s+", " ", s)\<close>: every maximal run of whitespace becomes one space;
  \<open>sp\<close> is the test for whitespace.
\<close>

function collapse_ws :: "(char \<Rightarrow> bool) \<Rightarrow> string \<Rightarrow> string" where
  "collapse_ws sp [] = []"
| "collapse_ws sp (c # cs) =
     (if sp c then CHR '' '' # collapse_ws sp (dropWhile sp cs) else c # collapse_ws sp cs)"
  by pat_completeness auto
termination
  by (relation "measure (\<lambda>(sp, s). length s)") (auto simp: less_Suc_eq_le length_dropWhile_le)

text \<open>\<^verbatim>\<open>s.strip()\<close>: whitespace is removed at both ends.\<close>

definition strip :: "(char \<Rightarrow> bool) \<Rightarrow> string \<Rightarrow> string" where
  "strip sp s = rev (dropWhile sp (rev (dropWhile sp s)))"

section \<open>The library functions of the text normalizer\<close>

text \<open>
  \<^verbatim>\<open>norm\<close> calls \<^verbatim>\<open>html.unescape\<close>, \<^verbatim>\<open>unicodedata.normalize("NFKD", _)\<close>,
  \<^verbatim>\<open>unicodedata.combining\<close> and \<^verbatim>\<open>str.casefold\<close>, and its regular expression
  \<^verbatim>\<open>\s\<close> and \<^verbatim>\<open>str.strip\<close> use the whitespace test of \<^verbatim>\<open>str.isspace\<close>.
  These functions of Python's standard library rest on the tables of the Unicode
  standard and of the HTML standard; the program's functions take them as a parameter.
\<close>

record pylib =
  unescape :: "string \<Rightarrow> string"
  isspace :: "char \<Rightarrow> bool"
  nfkd :: "string \<Rightarrow> string"
  combining :: "char \<Rightarrow> nat"
  casefold :: "string \<Rightarrow> string"

subsection \<open>The library on ASCII text\<close>

text \<open>
  Modelled from the documentation and the source of Python's standard library, for
  ASCII text. On ASCII characters \<^verbatim>\<open>str.isspace\<close> holds of the ten characters
  below, NFKD changes nothing, no character is a combining mark, and
  \<^verbatim>\<open>casefold\<close> turns \<open>A\<close> to \<open>Z\<close> into \<open>a\<close> to \<open>z\<close>.
\<close>

definition ascii_isspace :: "char \<Rightarrow> bool" where
  "ascii_isspace c =
     (c \<in> set [CHR 0x09, CHR 0x0A, CHR 0x0B, CHR 0x0C, CHR 0x0D,
                CHR 0x1C, CHR 0x1D, CHR 0x1E, CHR 0x1F, CHR 0x20])"

definition ascii_lower :: "char \<Rightarrow> char" where
  "ascii_lower c =
     (case map_of (zip ''ABCDEFGHIJKLMNOPQRSTUVWXYZ'' ''abcdefghijklmnopqrstuvwxyz'') c of
        Some d \<Rightarrow> d
      | None \<Rightarrow> c)"

text \<open>
  \<^verbatim>\<open>html.unescape\<close> returns a string without \<open>&\<close> as it is. Otherwise it
  replaces, from left to right, every match of
  \<^verbatim>\<open>&(#[0-9]+;?|#[xX][0-9a-fA-F]+;?|[^\t\n\f <&#;]{1,32};?)\<close>: a name that is in the
  table \<^verbatim>\<open>html5\<close> by its entry; else the longest prefix of the name (of length
  at least 2) that is in the table by its entry, the rest of the name kept; else the
  match stays. \<open>html5\<close> below holds the table's entries for the five entities predefined
  in XML (the table has 2231 entries). Numeric references (\<^verbatim>\<open>&#...\<close>) are not
  modelled: this model leaves them as they are.
\<close>

definition html5 :: "(string \<times> string) list" where
  "html5 =
     [(''amp;'', ''&''), (''amp'', ''&''), (''lt;'', ''<''), (''lt'', ''<''),
      (''gt;'', ''>''), (''gt'', ''>''), (''quot;'', [CHR 0x22]), (''quot'', [CHR 0x22]),
      (''apos;'', [CHR 0x27])]"

definition name_char :: "char \<Rightarrow> bool" where
  "name_char c = (c \<notin> set [CHR 0x09, LF, CHR 0x0C, CHR '' '', CHR ''<'', CHR ''&'', CHR ''#'', CHR '';''])"

definition charref_match :: "string \<Rightarrow> string option" where
  "charref_match cs =
     (let name = take 32 (takeWhile name_char cs)
      in if name = [] then None
         else if startswith (drop (length name) cs) '';'' then Some (name @ '';'')
         else Some name)"

fun longest_prefix :: "string \<Rightarrow> nat \<Rightarrow> string option" where
  "longest_prefix s 0 = None"
| "longest_prefix s (Suc x) =
     (if Suc x < 2 then None
      else case map_of html5 (take (Suc x) s) of
             Some r \<Rightarrow> Some (r @ drop (Suc x) s)
           | None \<Rightarrow> longest_prefix s x)"

definition replace_charref :: "string \<Rightarrow> string" where
  "replace_charref s =
     (case map_of html5 s of
        Some r \<Rightarrow> r
      | None \<Rightarrow>
          (case longest_prefix s (length s - 1) of
             Some r \<Rightarrow> r
           | None \<Rightarrow> CHR ''&'' # s))"

function charref_sub :: "string \<Rightarrow> string" where
  "charref_sub [] = []"
| "charref_sub (c # cs) =
     (if c = CHR ''&'' then
        (case charref_match cs of
           Some s \<Rightarrow> replace_charref s @ charref_sub (drop (length s) cs)
         | None \<Rightarrow> c # charref_sub cs)
      else c # charref_sub cs)"
  by pat_completeness auto
termination
  by (relation "measure length") auto

definition html_unescape :: "string \<Rightarrow> string" where
  "html_unescape s = (if CHR ''&'' \<notin> set s then s else charref_sub s)"

text \<open>
  The instance below agrees with Python on ASCII text only: on other characters NFKD,
  the combining class and \<^verbatim>\<open>casefold\<close> of Python differ from it. The statements
  about names with umlauts are therefore made for every library, not for this one.
\<close>

definition py_ascii :: pylib where
  "py_ascii =
     \<lparr>unescape = html_unescape, isspace = ascii_isspace, nfkd = (\<lambda>s. s),
      combining = (\<lambda>c. 0), casefold = map ascii_lower\<rparr>"

section \<open>Text normalizer\<close>

text \<open>\<^verbatim>\<open>norm\<close> (lines 28 to 34), the five steps in the order of the source.\<close>

definition norm :: "pylib \<Rightarrow> string \<Rightarrow> string" where
  "norm L s =
     (let s1 = unescape L s;
          s2 = strip (isspace L) (collapse_ws (isspace L) s1);
          s3 = nfkd L s2;
          s4 = filter (\<lambda>ch. combining L ch = 0) s3
      in casefold L s4)"

section \<open>Identifier resolver\<close>

datatype error = RequestError string | RuntimeError string

text \<open>
  The outside world of one run: what the two HTTP requests answer. A request that fails
  (\<^verbatim>\<open>requests.get\<close> or \<^verbatim>\<open>raise_for_status\<close> raises) is \<open>Inl\<close>. For the page of
  a league, \<open>index_options\<close> gives the list \<^verbatim>\<open>OPT_RE.findall(block)\<close> of the
  (value, label) pairs of the page's option elements, in document order; for a league
  and a team, \<open>kalender\<close> gives the text of the calendar feed.
\<close>

record env =
  index_options :: "string \<Rightarrow> error + (string \<times> string) list"
  kalender :: "string \<Rightarrow> string \<Rightarrow> error + string"

text \<open>
  \<^verbatim>\<open>re.sub(r"<.*?>", "", label)\<close>: from a \<open><\<close>, the shortest run of characters
  other than line feed up to a \<open>>\<close> is removed; a \<open><\<close> with no \<open>>\<close> on its line stays.
\<close>

function strip_tags :: "string \<Rightarrow> string" where
  "strip_tags [] = []"
| "strip_tags (c # cs) =
     (let rest = dropWhile (\<lambda>d. d \<noteq> CHR ''>'' \<and> d \<noteq> LF) cs
      in if c = CHR ''<'' \<and> rest \<noteq> [] \<and> hd rest = CHR ''>''
         then strip_tags (tl rest) else c # strip_tags cs)"
  by pat_completeness auto
termination
proof (relation "measure length", goal_cases)
  case 1
  show ?case by simp
next
  case (2 c cs rest)
  have "length (dropWhile (\<lambda>d. d \<noteq> CHR ''>'' \<and> d \<noteq> LF) cs) \<le> length cs"
    by (rule length_dropWhile_le)
  with 2 show ?case by (cases rest) auto
next
  case (3 c cs rest)
  show ?case by simp
qed

text \<open>
  A candidate is the triple \<^verbatim>\<open>(label_clean, val, original)\<close> that the loop of lines
  51 to 56 appends; an option whose stripped value is \<^verbatim>\<open>-1\<close> or empty is skipped.
\<close>

type_synonym candidate = "string \<times> string \<times> string"

fun candidates_of :: "pylib \<Rightarrow> (string \<times> string) list \<Rightarrow> candidate list" where
  "candidates_of L [] = []"
| "candidates_of L ((val, label) # opts) =
     (let label_clean = norm L (strip_tags label)
      in if strip (isspace L) val = ''-1'' \<or> strip (isspace L) val = []
         then candidates_of L opts
         else (label_clean, strip (isspace L) val, strip (isspace L) (strip_tags label))
                # candidates_of L opts)"

text \<open>The two loops of lines 59 to 66.\<close>

fun exact_pass :: "string \<Rightarrow> candidate list \<Rightarrow> string option" where
  "exact_pass wanted [] = None"
| "exact_pass wanted ((label_clean, val, original) # cands) =
     (if label_clean = wanted then Some val else exact_pass wanted cands)"

fun contains_pass :: "string \<Rightarrow> candidate list \<Rightarrow> string option" where
  "contains_pass wanted [] = None"
| "contains_pass wanted ((label_clean, val, original) # cands) =
     (if contains label_clean wanted \<or> contains wanted label_clean then Some val
      else contains_pass wanted cands)"

text \<open>The message of the \<^verbatim>\<open>RuntimeError\<close> of lines 69 to 73.\<close>

definition sample_of :: "candidate list \<Rightarrow> string list" where
  "sample_of candidates = map (\<lambda>(label_clean, val, orig). orig) (take 10 candidates)"

definition not_found_message :: "string \<Rightarrow> string \<Rightarrow> candidate list \<Rightarrow> string" where
  "not_found_message team_name liga_id candidates =
     ''Team '' @ [CHR 0x27] @ team_name @ [CHR 0x27] @ '' nicht im Dropdown gefunden (liga_id=''
       @ liga_id @ ''). Beispieloptionen: '' @ join '', '' (sample_of candidates)"

text \<open>\<^verbatim>\<open>fetch_team_id\<close> from line 49 on, for the option pairs of the page.\<close>

definition match_team :: "pylib \<Rightarrow> (string \<times> string) list \<Rightarrow> string \<Rightarrow> string \<Rightarrow> error + string" where
  "match_team L options team_name liga_id =
     (let wanted = norm L team_name;
          candidates = candidates_of L options
      in case exact_pass wanted candidates of
           Some val \<Rightarrow> Inr val
         | None \<Rightarrow>
             (case contains_pass wanted candidates of
                Some val \<Rightarrow> Inr val
              | None \<Rightarrow> Inl (RuntimeError (not_found_message team_name liga_id candidates))))"

definition fetch_team_id :: "pylib \<Rightarrow> env \<Rightarrow> string \<Rightarrow> string \<Rightarrow> error + string" where
  "fetch_team_id L E team_name liga_id =
     (case index_options E liga_id of
        Inl e \<Rightarrow> Inl e
      | Inr options \<Rightarrow> match_team L options team_name liga_id)"

section \<open>Feed fetcher\<close>

text \<open>Line 81: the three replacements, in the order of the source.\<close>

definition normalize_crlf :: "string \<Rightarrow> string" where
  "normalize_crlf text = replace [LF] CRLF (replace [CR] [LF] (replace CRLF [LF] text))"

definition fetch_ics :: "env \<Rightarrow> string \<Rightarrow> string \<Rightarrow> error + string" where
  "fetch_ics E liga_id ms_liga_id =
     (case kalender E liga_id ms_liga_id of
        Inl e \<Rightarrow> Inl e
      | Inr text \<Rightarrow> Inr (normalize_crlf text))"

section \<open>Event extractor\<close>

text \<open>
  \<^verbatim>\<open>VEVENT_RE.findall(ics_text)\<close> for
  \<^verbatim>\<open>BEGIN:VEVENT\r?\n.*?\r?\nEND:VEVENT\r?\n\<close> with \<^verbatim>\<open>re.DOTALL\<close>. \<open>eol_match\<close> is
  \<^verbatim>\<open>\r?\n\<close> at the head of a string and \<open>end_match\<close> is
  \<^verbatim>\<open>\r?\nEND:VEVENT\r?\n\<close> there; both give the text after the match. The lazy
  \<^verbatim>\<open>.*?\<close> stops at the first position where \<open>end_match\<close> succeeds
  (\<open>find_end\<close>). The search for the next match goes on after a match, and one
  character further where there is none.
\<close>

definition eol_match :: "string \<Rightarrow> string option" where
  "eol_match s =
     (case s of
        c # d # r \<Rightarrow> if c = CR \<and> d = LF then Some r else if c = LF then Some (d # r) else None
      | [c] \<Rightarrow> if c = LF then Some [] else None
      | [] \<Rightarrow> None)"

definition end_match :: "string \<Rightarrow> string option" where
  "end_match s =
     (case eol_match s of
        None \<Rightarrow> None
      | Some r \<Rightarrow> if startswith r ''END:VEVENT'' then eol_match (drop 10 r) else None)"

fun find_end :: "string \<Rightarrow> string option" where
  "find_end [] = None"
| "find_end (c # cs) =
     (case end_match (c # cs) of Some rest \<Rightarrow> Some rest | None \<Rightarrow> find_end cs)"

definition vevent_match :: "string \<Rightarrow> (string \<times> string) option" where
  "vevent_match s =
     (if startswith s ''BEGIN:VEVENT'' then
        (case eol_match (drop 12 s) of
           None \<Rightarrow> None
         | Some body \<Rightarrow>
             (case find_end body of
                None \<Rightarrow> None
              | Some rest \<Rightarrow> Some (take (length s - length rest) s, rest)))
      else None)"

lemma eol_match_shorter: "eol_match s = Some r \<Longrightarrow> length r < length s"
  by (auto simp: eol_match_def split: list.splits if_splits)

lemma end_match_shorter: "end_match s = Some r \<Longrightarrow> length r < length s"
  by (fastforce simp: end_match_def split: option.splits if_splits dest: eol_match_shorter)

lemma find_end_shorter: "find_end s = Some r \<Longrightarrow> length r < length s"
  by (induction s) (fastforce split: option.splits dest: end_match_shorter)+

lemma vevent_match_shorter: "vevent_match s = Some (ev, r) \<Longrightarrow> length r < length s"
  by (fastforce simp: vevent_match_def split: option.splits if_splits
      dest: eol_match_shorter find_end_shorter)

function extract_events :: "string \<Rightarrow> string list" where
  "extract_events [] = []"
| "extract_events (c # cs) =
     (case vevent_match (c # cs) of
        Some (ev, rest) \<Rightarrow> ev # extract_events rest
      | None \<Rightarrow> extract_events cs)"
  by pat_completeness auto
termination
  by (relation "measure length") (auto dest: vevent_match_shorter)

section \<open>Event transformer\<close>

text \<open>
  Both rewrites are \<^verbatim>\<open>re.sub(r"^KEY(.+)\r\n", repl, text, flags=re.MULTILINE)\<close>, for
  the keys \<^verbatim>\<open>UID:\<close> and \<^verbatim>\<open>SUMMARY:\<close>, with no \<^verbatim>\<open>count\<close>: every match is
  replaced. \<^verbatim>\<open>^\<close> matches at the start of the text and after every line feed.
  \<^verbatim>\<open>.\<close> matches every character but line feed, so the greedy \<^verbatim>\<open>.+\<close> runs up to
  the next line feed and gives back one character, which has to be a carriage return:
  a match at a line start is the key, a group of at least one character, CR and LF.
  \<open>field_match\<close> gives the group and the text after the match.
\<close>

definition field_match :: "string \<Rightarrow> string \<Rightarrow> (string \<times> string) option" where
  "field_match key s =
     (let body = drop (length key) s;
          run = takeWhile (\<lambda>c. c \<noteq> LF) body;
          rest = dropWhile (\<lambda>c. c \<noteq> LF) body
      in if startswith s key \<and> rest \<noteq> [] \<and> 2 \<le> length run \<and> last run = CR
         then Some (butlast run, tl rest) else None)"

lemma field_match_shorter: "field_match key s = Some (g, rest) \<Longrightarrow> length rest < length s"
proof -
  assume a: "field_match key s = Some (g, rest)"
  let ?body = "drop (length key) s"
  from a have r: "rest = tl (dropWhile (\<lambda>c. c \<noteq> LF) ?body)"
    and ne: "dropWhile (\<lambda>c. c \<noteq> LF) ?body \<noteq> []"
    by (auto simp: field_match_def Let_def split: if_splits)
  have "length (dropWhile (\<lambda>c. c \<noteq> LF) ?body) \<le> length ?body"
    by (rule length_dropWhile_le)
  with ne r show ?thesis by (cases "dropWhile (\<lambda>c. c \<noteq> LF) ?body") auto
qed

text \<open>
  The scan of \<^verbatim>\<open>re.sub\<close>: \<open>bol\<close> says that the position is a line start. After a
  match the scan goes on behind it, which is a line start again.
\<close>

function re_sub_field :: "string \<Rightarrow> (string \<Rightarrow> string) \<Rightarrow> bool \<Rightarrow> string \<Rightarrow> string" where
  "re_sub_field key repl bol [] = []"
| "re_sub_field key repl bol (c # cs) =
     (case (if bol then field_match key (c # cs) else None) of
        Some (g, rest) \<Rightarrow> repl g @ re_sub_field key repl True rest
      | None \<Rightarrow> c # re_sub_field key repl (c = LF) cs)"
  by pat_completeness auto
termination
  by (relation "measure (\<lambda>(key, repl, bol, s). length s)")
    (auto split: if_splits dest: field_match_shorter)

text \<open>The loop of lines 99 to 103.\<close>

fun insert_uid :: "string \<Rightarrow> bool \<Rightarrow> string list \<Rightarrow> string list" where
  "insert_uid uid inserted [] = []"
| "insert_uid uid inserted (line # lines) =
     (if \<not> inserted \<and> startswith line ''DTSTART''
      then line # (''UID:'' @ uid) # insert_uid uid True lines
      else line # insert_uid uid inserted lines)"

text \<open>
  \<^verbatim>\<open>prefix_uid\<close> (lines 87 to 104). \<open>hash\<close> is Python's \<^verbatim>\<open>hash\<close> on strings in
  the process of the run: a function, fixed for the run, that differs between runs.
\<close>

definition prefix_uid :: "(string \<Rightarrow> int) \<Rightarrow> string \<Rightarrow> string \<Rightarrow> string" where
  "prefix_uid hash event_text pfx =
     (if contains event_text ''UID:'' then
        re_sub_field ''UID:'' (\<lambda>g. ''UID:'' @ pfx @ ''-'' @ g @ CRLF) True event_text
      else
        let uid = pfx @ ''-'' @ str_int (abs (hash event_text)) @ ''@basketball-bund.net'';
            lines = split_crlf event_text
        in join CRLF (insert_uid uid False lines))"

text \<open>The rewrite of the summary in \<^verbatim>\<open>main\<close> (lines 133 to 138).\<close>

definition annotate_summary :: "string \<Rightarrow> string \<Rightarrow> string" where
  "annotate_summary team_name ev2 =
     re_sub_field ''SUMMARY:'' (\<lambda>g. ''SUMMARY:'' @ g @ '' ['' @ team_name @ '']'' @ CRLF) True ev2"

text \<open>The body of the inner loop of \<^verbatim>\<open>main\<close> (lines 130 to 139).\<close>

definition transform_event :: "(string \<Rightarrow> int) \<Rightarrow> string \<Rightarrow> string \<Rightarrow> string \<Rightarrow> string" where
  "transform_event hash pfx team_name ev = annotate_summary team_name (prefix_uid hash ev pfx)"

section \<open>Merge and dedupe\<close>

text \<open>
  \<^verbatim>\<open>merged = list(dict.fromkeys(merged))\<close> (line 142). A Python dict keeps its keys
  in insertion order, and inserting a key that is present leaves its position: the dict
  that \<^verbatim>\<open>fromkeys\<close> builds is modelled by the list of its keys, in insertion order.
\<close>

definition dict_insert_key :: "'a list \<Rightarrow> 'a \<Rightarrow> 'a list" where
  "dict_insert_key keys k = (if k \<in> set keys then keys else keys @ [k])"

definition fromkeys :: "'a list \<Rightarrow> 'a list" where
  "fromkeys xs = foldl dict_insert_key [] xs"

definition dedupe :: "string list \<Rightarrow> string list" where
  "dedupe merged = fromkeys merged"

section \<open>The run\<close>

text \<open>The configured targets (lines 13 to 18); \<open>CHR 0xFC\<close> and \<open>CHR 0xF6\<close> are the umlauts.\<close>

definition TARGETS :: "(string \<times> string) list" where
  "TARGETS =
     [(''TSV Gromb'' @ [CHR 0xFC] @ ''hl 2'', ''51127''),
      (''TSV Gromb'' @ [CHR 0xFC] @ ''hl'', ''52205''),
      (''TSV Gromb'' @ [CHR 0xFC] @ ''hl AK'', ''51052''),
      (''TG Veitsh'' @ [CHR 0xF6] @ ''chheim'', ''49758'')]"

definition no_events_message :: "string \<Rightarrow> string \<Rightarrow> string \<Rightarrow> string" where
  "no_events_message team_name liga_id ms_id =
     ''Keine VEVENTs gefunden f'' @ [CHR 0xFC] @ ''r '' @ team_name @ '' (liga_id='' @ liga_id
       @ '', ms_liga_id='' @ ms_id @ '')''"

text \<open>
  The outer loop of \<^verbatim>\<open>main\<close> (lines 121 to 139) over a list of targets, with the
  list \<^verbatim>\<open>merged\<close> as state. An exception ends the run.
\<close>

fun collect :: "pylib \<Rightarrow> (string \<Rightarrow> int) \<Rightarrow> env \<Rightarrow> (string \<times> string) list \<Rightarrow> string list
    \<Rightarrow> error + string list" where
  "collect L hash E [] merged = Inr merged"
| "collect L hash E ((team_name, liga_id) # targets) merged =
     (case fetch_team_id L E team_name liga_id of
        Inl e \<Rightarrow> Inl e
      | Inr ms_id \<Rightarrow>
          (case fetch_ics E liga_id ms_id of
             Inl e \<Rightarrow> Inl e
           | Inr ics \<Rightarrow>
               (let events = extract_events ics
                in if events = [] then Inl (RuntimeError (no_events_message team_name liga_id ms_id))
                   else let pfx = ''liga'' @ liga_id @ ''-team'' @ ms_id
                        in collect L hash E targets
                             (merged @ map (transform_event hash pfx team_name) events))))"

text \<open>The events that \<^verbatim>\<open>main\<close> writes between the header and the footer (line 147).\<close>

definition merged_events :: "pylib \<Rightarrow> (string \<Rightarrow> int) \<Rightarrow> env \<Rightarrow> (string \<times> string) list
    \<Rightarrow> error + string list" where
  "merged_events L hash E targets =
     (case collect L hash E targets [] of
        Inl e \<Rightarrow> Inl e
      | Inr merged \<Rightarrow> Inr (dedupe merged))"

definition ensure_calendar_header :: string where
  "ensure_calendar_header =
     ''BEGIN:VCALENDAR'' @ CRLF
     @ ''VERSION:2.0'' @ CRLF
     @ ''PRODID:-//David//BB Kalender Merge//DE'' @ CRLF
     @ ''CALSCALE:GREGORIAN'' @ CRLF
     @ ''METHOD:PUBLISH'' @ CRLF
     @ ''X-WR-CALNAME:Basketball Spiele'' @ CRLF
     @ ''X-WR-TIMEZONE:Europe/Berlin'' @ CRLF
     @ ''X-PUBLISHED-TTL:PT168H'' @ CRLF"

text \<open>\<^verbatim>\<open>main\<close>: the text written to \<^verbatim>\<open>calendar.ics\<close>; \<open>now\<close> is the time stamp.\<close>

definition main :: "pylib \<Rightarrow> (string \<Rightarrow> int) \<Rightarrow> env \<Rightarrow> string \<Rightarrow> error + string" where
  "main L hash E now =
     (case merged_events L hash E TARGETS of
        Inl e \<Rightarrow> Inl e
      | Inr merged \<Rightarrow>
          Inr (ensure_calendar_header
               @ ''X-WR-CALDESC:Automatisch generiert. Letztes Update: '' @ now @ CRLF
               @ concat merged
               @ ''END:VCALENDAR'' @ CRLF))"

section \<open>The words of the specification\<close>

text \<open>
  A record stays exactly when no earlier record of the sequence has the same text,
  and the records that stay keep their order.
\<close>

definition first_occurrences :: "'a list \<Rightarrow> 'a list" where
  "first_occurrences xs =
     map (\<lambda>i. xs ! i) (filter (\<lambda>i. xs ! i \<notin> set (take i xs)) [0..<length xs])"

definition unseen :: "'a list \<Rightarrow> 'a list \<Rightarrow> 'a list" where
  "unseen acc xs =
     map (\<lambda>i. xs ! i) (filter (\<lambda>i. xs ! i \<notin> set acc \<union> set (take i xs)) [0..<length xs])"

text \<open>
  Every line break is CR LF: a carriage return is followed by a line feed, and a line
  feed stands only there.
\<close>

fun crlf_only :: "string \<Rightarrow> bool" where
  "crlf_only [] = True"
| "crlf_only [c] = (c \<noteq> CR \<and> c \<noteq> LF)"
| "crlf_only (c # d # cs) =
     (if c = CR then d = LF \<and> crlf_only cs else c \<noteq> LF \<and> crlf_only (d # cs))"

text \<open>An outside world for the examples: no option on any page, one feed text.\<close>

definition sample_feed :: "string \<Rightarrow> env" where
  "sample_feed text = \<lparr>index_options = (\<lambda>liga_id. Inr []), kalender = (\<lambda>liga_id ms_id. Inr text)\<rparr>"

text \<open>
  The lines of a text as the regular expressions see them with \<^verbatim>\<open>re.MULTILINE\<close>:
  a line ends with its line feed, the last line may lack one.
\<close>

fun lf_lines :: "string \<Rightarrow> string list" where
  "lf_lines [] = []"
| "lf_lines (c # cs) =
     (if c = LF then [LF] # lf_lines cs
      else (case lf_lines cs of [] \<Rightarrow> [[c]] | l # ls \<Rightarrow> (c # l) # ls))"

definition first_line :: "string \<Rightarrow> string" where
  "first_line s = takeWhile (\<lambda>c. c \<noteq> LF) s @ take 1 (dropWhile (\<lambda>c. c \<noteq> LF) s)"

definition rest_lines :: "string \<Rightarrow> string" where
  "rest_lines s = drop 1 (dropWhile (\<lambda>c. c \<noteq> LF) s)"

text \<open>
  A field line is a line made of the key, a value of at least one character, CR and
  LF; \<open>field_value\<close> gives the value of a field line, and \<open>None\<close> for any other line.
\<close>

definition field_value :: "string \<Rightarrow> string \<Rightarrow> string option" where
  "field_value key l =
     (if startswith l key \<and> length key + 3 \<le> length l \<and> drop (length l - 2) l = CRLF
      then Some (take (length l - length key - 2) (drop (length key) l)) else None)"

definition rewrite_line :: "string \<Rightarrow> (string \<Rightarrow> string) \<Rightarrow> string \<Rightarrow> string" where
  "rewrite_line key repl l = (case field_value key l of Some g \<Rightarrow> repl g | None \<Rightarrow> l)"

text \<open>What the two rewrites of the transformer do to one line.\<close>

definition namespaced_line :: "string \<Rightarrow> string \<Rightarrow> string" where
  "namespaced_line pfx l =
     (case field_value ''UID:'' l of
        Some uid \<Rightarrow> ''UID:'' @ pfx @ ''-'' @ uid @ CRLF
      | None \<Rightarrow> l)"

definition annotated_line :: "string \<Rightarrow> string \<Rightarrow> string" where
  "annotated_line team_name l =
     (case field_value ''SUMMARY:'' l of
        Some summary \<Rightarrow> ''SUMMARY:'' @ summary @ '' ['' @ team_name @ '']'' @ CRLF
      | None \<Rightarrow> l)"

text \<open>A stand-in for the hash function of one run, for the examples.\<close>

definition sample_hash :: "string \<Rightarrow> int" where
  "sample_hash s = - int (length s)"

text \<open>
  An outside world for the examples: the same options on every page, the same text
  for every feed.
\<close>

definition sample_env :: "(string \<times> string) list \<Rightarrow> string \<Rightarrow> env" where
  "sample_env opts text =
     \<lparr>index_options = (\<lambda>liga_id. Inr opts), kalender = (\<lambda>liga_id ms_id. Inr text)\<rparr>"





text \<open>
  An outside world for an example: every configured league has a page with the one
  option of the configured team, and every feed lists one game at two dates under one
  UID (as a feed does for a rescheduled game).
\<close>

definition league_page :: "string \<Rightarrow> (string \<times> string) list" where
  "league_page liga_id =
     (if liga_id = ''51127'' then [(''425276'', ''TSV Gromb'' @ [CHR 0xFC] @ ''hl 2'')]
      else if liga_id = ''52205'' then [(''425277'', ''TSV Gromb'' @ [CHR 0xFC] @ ''hl'')]
      else if liga_id = ''51052'' then [(''425278'', ''TSV Gromb'' @ [CHR 0xFC] @ ''hl AK'')]
      else if liga_id = ''49758'' then [(''425279'', ''TG Veitsh'' @ [CHR 0xF6] @ ''chheim'')]
      else [])"

definition rescheduled_feed :: string where
  "rescheduled_feed =
     ''BEGIN:VCALENDAR'' @ [LF] @ ''VERSION:2.0'' @ [LF]
     @ ''BEGIN:VEVENT'' @ [LF] @ ''UID:4711'' @ [LF] @ ''DTSTART:20250111T180000'' @ [LF]
     @ ''SUMMARY:Heimspiel'' @ [LF] @ ''END:VEVENT'' @ [LF]
     @ ''BEGIN:VEVENT'' @ [LF] @ ''UID:4711'' @ [LF] @ ''DTSTART:20250118T180000'' @ [LF]
     @ ''SUMMARY:Heimspiel'' @ [LF] @ ''END:VEVENT'' @ [LF]
     @ ''END:VCALENDAR'' @ [LF]"

definition rescheduled_env :: env where
  "rescheduled_env =
     \<lparr>index_options = (\<lambda>liga_id. Inr (league_page liga_id)),
      kalender = (\<lambda>liga_id ms_id. Inr rescheduled_feed)\<rparr>"

section \<open>Properties of merge and dedupe\<close>

lemma unseen_Nil: "unseen acc [] = []"
  by (simp add: unseen_def)

lemma unseen_Cons:
  "unseen acc (x # xs) = (if x \<in> set acc then unseen acc xs else x # unseen (acc @ [x]) xs)"
proof -
  have u: "[0..<length (x # xs)] = 0 # map Suc [0..<length xs]"
    by (simp only: length_Cons upt_conv_Cons [OF zero_less_Suc] map_Suc_upt)
  show ?thesis
    unfolding unseen_def u
    apply (simp add: filter_map o_def)
    apply (intro conjI impI arg_cong [where f = "map ((!) xs)"] filter_cong)
    apply auto
    done
qed

lemma foldl_dict_insert_key: "foldl dict_insert_key acc xs = acc @ unseen acc xs"
proof (induction xs arbitrary: acc)
  case Nil
  show ?case by (simp add: unseen_Nil)
next
  case (Cons x xs)
  show ?case
    unfolding foldl_Cons Cons.IH by (simp add: unseen_Cons dict_insert_key_def)
qed

lemma fromkeys_first_occurrences: "fromkeys xs = first_occurrences xs"
  by (simp add: fromkeys_def foldl_dict_insert_key first_occurrences_def unseen_def)

text \<open>
  Claim C7. Merge and dedupe removes exactly the records whose text equals that of an
  earlier record of the sequence: the result lists, in their original order, the
  records at the positions \<open>i\<close> where no position before \<open>i\<close> holds the same text. For
  distinct texts \<open>A\<close> and \<open>B\<close>, merging \<open>[A, B, A]\<close> gives \<open>[A, B]\<close>.
\<close>

theorem dedupe_keeps_first_occurrences:
  "dedupe merged = first_occurrences merged \<and> (A \<noteq> B \<longrightarrow> dedupe [A, B, A] = [A, B])"
  by (simp add: dedupe_def fromkeys_first_occurrences)
    (simp add: first_occurrences_def)

theorem dedupe_keeps_first_occurrences_witness:
  "''a'' \<noteq> ''b'' \<and> dedupe [''a'', ''b'', ''a''] = [''a'', ''b'']
   \<and> dedupe [''a'', ''a'', ''b''] = first_occurrences [''a'', ''a'', ''b'']"
  using dedupe_keeps_first_occurrences [of "[''a'', ''a'', ''b'']" "''a''" "''b''"] by simp

section \<open>Properties of the feed fetcher\<close>

lemma replace_single:
  "replace [a] new s = concat (map (\<lambda>c. if c = a then new else [c]) s)"
  by (induction s) (simp_all add: startswith_def)

lemma crlf_only_Cons: "c \<noteq> CR \<Longrightarrow> c \<noteq> LF \<Longrightarrow> crlf_only s \<Longrightarrow> crlf_only (c # s)"
  by (cases s) simp_all

lemma crlf_only_expand:
  "CR \<notin> set t \<Longrightarrow> crlf_only (concat (map (\<lambda>c. if c = LF then CRLF else [c]) t))"
  by (induction t) (auto intro: crlf_only_Cons)

lemma no_CR_after_second: "CR \<notin> set (concat (map (\<lambda>c. if c = CR then [LF] else [c]) t))"
  by (induction t) simp_all

lemma crlf_only_normalize: "crlf_only (normalize_crlf text)"
  unfolding normalize_crlf_def replace_single [of LF] replace_single [of CR]
  by (rule crlf_only_expand) (rule no_CR_after_second)

lemma crlf_only_nth:
  "crlf_only s \<Longrightarrow> i < length s \<Longrightarrow>
     (s ! i = LF \<longrightarrow> 0 < i \<and> s ! (i - 1) = CR) \<and>
     (s ! i = CR \<longrightarrow> Suc i < length s \<and> s ! Suc i = LF)"
proof (induction s arbitrary: i rule: crlf_only.induct)
  case 1
  then show ?case by simp
next
  case (2 c)
  then show ?case by simp
next
  case (3 c d cs)
  show ?case
  proof (cases "c = CR")
    case True
    with 3 have d: "d = LF" and ok: "crlf_only cs" by simp_all
    show ?thesis
    proof (cases i)
      case 0
      with True d show ?thesis by simp
    next
      case (Suc j)
      show ?thesis
      proof (cases j)
        case 0
        with Suc True d show ?thesis by simp
      next
        case (Suc k)
        with \<open>i = Suc j\<close> "3.prems" have k: "k < length cs" by simp
        from "3.IH"(1) [OF True ok k] Suc \<open>i = Suc j\<close> d show ?thesis
          by (cases k) auto
      qed
    qed
  next
    case False
    with 3 have c: "c \<noteq> LF" and ok: "crlf_only (d # cs)" by simp_all
    show ?thesis
    proof (cases i)
      case 0
      with False c show ?thesis by simp
    next
      case (Suc j)
      with "3.prems" have j: "j < length (d # cs)" by simp
      from "3.IH"(2) [OF False ok j] Suc False c show ?thesis
        by (cases j) auto
    qed
  qed
qed

text \<open>
  Claim C8. Whatever text the request for the feed answers (CR LF, bare LF, bare CR or
  a mixture), the feed fetcher returns the text after the three replacements of line
  81, and in it every line feed stands right after a carriage return and every
  carriage return stands right before a line feed.
\<close>

theorem fetch_ics_line_breaks_are_crlf:
  assumes "kalender E liga_id ms_liga_id = Inr text"
  shows "\<exists>out. fetch_ics E liga_id ms_liga_id = Inr out \<and> out = normalize_crlf text \<and>
    (\<forall>i < length out.
       (out ! i = LF \<longrightarrow> 0 < i \<and> out ! (i - 1) = CR) \<and>
       (out ! i = CR \<longrightarrow> Suc i < length out \<and> out ! Suc i = LF))"
  using assms crlf_only_nth [OF crlf_only_normalize [of "text"]]
  by (simp add: fetch_ics_def)

theorem fetch_ics_line_breaks_are_crlf_witness:
  "fetch_ics (sample_feed (''a'' @ [LF] @ ''b'' @ [CR] @ ''c'' @ CRLF @ [CR, LF, LF])) ''51127'' ''425276''
     = Inr (''a'' @ CRLF @ ''b'' @ CRLF @ ''c'' @ CRLF @ CRLF @ CRLF)"
proof -
  let ?text = "''a'' @ [LF] @ ''b'' @ [CR] @ ''c'' @ CRLF @ [CR, LF, LF]"
  have h: "kalender (sample_feed ?text) ''51127'' ''425276'' = Inr ?text"
    by (simp add: sample_feed_def)
  from fetch_ics_line_breaks_are_crlf [OF h]
  have "fetch_ics (sample_feed ?text) ''51127'' ''425276'' = Inr (normalize_crlf ?text)"
    by blast
  then show ?thesis
    by (simp add: normalize_crlf_def startswith_def)
qed

section \<open>Properties of the event transformer\<close>

subsection \<open>The rewrite, line by line\<close>

lemma field_value_iff: "field_value key l = Some g \<longleftrightarrow> g \<noteq> [] \<and> l = key @ g @ CRLF"
proof
  assume a: "field_value key l = Some g"
  then have sw: "take (length key) l = key" and len: "length key + 3 \<le> length l"
    and e: "drop (length l - 2) l = CRLF"
    and g: "g = take (length l - length key - 2) (drop (length key) l)"
    by (auto simp: field_value_def startswith_def split: if_splits)
  have 1: "l = key @ drop (length key) l"
    using sw by (metis append_take_drop_id)
  have 2: "drop (length key) l = g @ drop (length l - length key - 2) (drop (length key) l)"
    unfolding g by (rule append_take_drop_id [symmetric])
  have "length l - length key - 2 + length key = length l - 2"
    using len by simp
  then have 3: "drop (length l - length key - 2) (drop (length key) l) = drop (length l - 2) l"
    by (simp only: drop_drop)
  have "l = key @ g @ CRLF"
    by (subst 1, subst 2, subst 3, subst e) (rule refl)
  moreover from g len have "g \<noteq> []" by auto
  ultimately show "g \<noteq> [] \<and> l = key @ g @ CRLF" by simp
next
  assume "g \<noteq> [] \<and> l = key @ g @ CRLF"
  then have g: "g \<noteq> []" and l: "l = key @ g @ CRLF" by simp_all
  from g have "1 \<le> length g" by (cases g) simp_all
  with l show "field_value key l = Some g"
    by (simp add: field_value_def startswith_def)
qed

lemma first_line_Cons:
  "first_line (c # cs) = (if c = LF then [LF] else c # first_line cs)"
  by (simp add: first_line_def)

lemma rest_lines_Cons:
  "rest_lines (c # cs) = (if c = LF then cs else rest_lines cs)"
  by (simp add: rest_lines_def)

lemma rest_lines_le: "length (rest_lines s) \<le> length s"
  by (induction s) (simp_all add: rest_lines_Cons rest_lines_def)

lemma lf_lines_unfold: "s \<noteq> [] \<Longrightarrow> lf_lines s = first_line s # lf_lines (rest_lines s)"
proof (induction s)
  case Nil
  then show ?case by simp
next
  case (Cons c cs)
  show ?case
  proof (cases "cs = []")
    case True
    then show ?thesis by (simp add: first_line_def rest_lines_def)
  next
    case False
    with Cons.IH show ?thesis by (simp add: first_line_Cons rest_lines_Cons)
  qed
qed

lemma concat_lf_lines: "concat (lf_lines s) = s"
  by (induction s) (auto split: list.splits)

lemma takeWhile_lf: "LF \<notin> set a \<Longrightarrow> takeWhile (\<lambda>c. c \<noteq> LF) (a @ LF # r) = a"
  by (induction a) auto

lemma dropWhile_lf: "LF \<notin> set a \<Longrightarrow> dropWhile (\<lambda>c. c \<noteq> LF) (a @ LF # r) = LF # r"
  by (induction a) auto

lemma takeWhile_no_lf: "LF \<notin> set s \<Longrightarrow> takeWhile (\<lambda>c. c \<noteq> LF) s = s"
  by (induction s) auto

lemma dropWhile_no_lf: "LF \<notin> set s \<Longrightarrow> dropWhile (\<lambda>c. c \<noteq> LF) s = []"
  by (induction s) auto

lemma field_match_iff:
  "field_match key s = Some (g, rest) \<longleftrightarrow>
     (\<exists>run. s = key @ run @ LF # rest \<and> LF \<notin> set run \<and> g \<noteq> [] \<and> run = g @ [CR])"
proof
  assume a: "field_match key s = Some (g, rest)"
  let ?body = "drop (length key) s"
  let ?run = "takeWhile (\<lambda>c. c \<noteq> LF) ?body"
  let ?rest = "dropWhile (\<lambda>c. c \<noteq> LF) ?body"
  from a have sw: "take (length key) s = key" and ne: "?rest \<noteq> []" and len: "2 \<le> length ?run"
    and cr: "last ?run = CR" and g: "g = butlast ?run" and r: "rest = tl ?rest"
    by (auto simp: field_match_def startswith_def Let_def split: if_splits)
  from ne have hd: "hd ?rest = LF" using hd_dropWhile [of "\<lambda>c. c \<noteq> LF" ?body] by simp
  with ne r have rest: "?rest = LF # rest" by (cases ?rest) simp_all
  have "s = key @ ?body" using sw by (metis append_take_drop_id)
  also have "?body = ?run @ ?rest" by simp
  finally have s: "s = key @ ?run @ LF # rest" using rest by simp
  from len have rne: "?run \<noteq> []" by auto
  then have run: "?run = g @ [CR]" using g cr by (metis append_butlast_last_id)
  from len run have "g \<noteq> []" by auto
  moreover have "LF \<notin> set ?run" by (auto dest: set_takeWhileD)
  ultimately show "\<exists>run. s = key @ run @ LF # rest \<and> LF \<notin> set run \<and> g \<noteq> [] \<and> run = g @ [CR]"
    using s run by blast
next
  assume "\<exists>run. s = key @ run @ LF # rest \<and> LF \<notin> set run \<and> g \<noteq> [] \<and> run = g @ [CR]"
  then obtain run where s: "s = key @ run @ LF # rest" and nl: "LF \<notin> set run"
    and g: "g \<noteq> []" and run: "run = g @ [CR]" by blast
  have tw: "takeWhile (\<lambda>c. c \<noteq> LF) (run @ LF # rest) = run"
    using nl by (rule takeWhile_lf)
  have dw: "dropWhile (\<lambda>c. c \<noteq> LF) (run @ LF # rest) = LF # rest"
    using nl by (rule dropWhile_lf)
  from g have "2 \<le> length run" unfolding run by (cases g) simp_all
  then show "field_match key s = Some (g, rest)"
    using tw dw by (simp add: field_match_def startswith_def s Let_def run)
qed

lemma first_line_split:
  "LF \<notin> set a \<Longrightarrow> first_line (a @ LF # r) = a @ [LF] \<and> rest_lines (a @ LF # r) = r"
  by (simp add: first_line_def rest_lines_def takeWhile_lf dropWhile_lf)

lemma first_line_cases:
  "(LF \<notin> set s \<and> first_line s = s \<and> rest_lines s = []) \<or>
   (\<exists>a r. s = a @ LF # r \<and> LF \<notin> set a \<and> first_line s = a @ [LF] \<and> rest_lines s = r)"
proof (cases "LF \<in> set s")
  case True
  then obtain a r where s: "s = a @ LF # r" and a: "LF \<notin> set a"
    by (auto dest: split_list_first)
  with first_line_split [OF a, of r] show ?thesis by blast
next
  case False
  then show ?thesis by (simp add: first_line_def rest_lines_def takeWhile_no_lf dropWhile_no_lf)
qed

lemma field_match_first_line:
  assumes "LF \<notin> set key"
  shows "field_match key s =
    (case field_value key (first_line s) of Some g \<Rightarrow> Some (g, rest_lines s) | None \<Rightarrow> None)"
proof (cases "field_match key s")
  case None
  have "field_value key (first_line s) = None"
  proof (rule ccontr)
    assume "field_value key (first_line s) \<noteq> None"
    then obtain g where "field_value key (first_line s) = Some g" by auto
    then have g: "g \<noteq> []" and fl: "first_line s = key @ g @ CRLF"
      by (simp_all add: field_value_iff)
    from fl have "LF \<in> set (first_line s)" by simp
    with first_line_cases [of s] obtain a r where s: "s = a @ LF # r" and a: "LF \<notin> set a"
      and fa: "first_line s = a @ [LF]" and r: "rest_lines s = r"
      by metis
    from fa fl have ak: "a = key @ g @ [CR]" by simp
    with a have "LF \<notin> set (g @ [CR])" by simp
    with s ak g have "field_match key s = Some (g, r)"
      by (simp add: field_match_iff)
    with None show False by simp
  qed
  with None show ?thesis by simp
next
  case (Some p)
  obtain g rest where p: "p = (g, rest)" by (cases p)
  with Some have "field_match key s = Some (g, rest)" by simp
  then obtain run where s: "s = key @ run @ LF # rest" and nl: "LF \<notin> set run"
    and g: "g \<noteq> []" and run: "run = g @ [CR]"
    by (auto simp: field_match_iff)
  from assms nl have "LF \<notin> set (key @ run)" by simp
  from first_line_split [OF this, of rest] s
  have fl: "first_line s = key @ run @ [LF]" and rl: "rest_lines s = rest" by simp_all
  from fl run g have "field_value key (first_line s) = Some g"
    by (simp add: field_value_iff)
  with Some p rl show ?thesis by simp
qed

lemma re_sub_field_copy:
  "re_sub_field key repl False s = first_line s @ re_sub_field key repl True (rest_lines s)"
  by (induction s) (simp_all add: first_line_Cons rest_lines_Cons, simp add: first_line_def rest_lines_def)

lemma re_sub_field_lines:
  assumes "LF \<notin> set key"
  shows "re_sub_field key repl True s = concat (map (rewrite_line key repl) (lf_lines s))"
proof (induction s rule: length_induct)
  case (1 s)
  show ?case
  proof (cases s)
    case Nil
    then show ?thesis by simp
  next
    case (Cons c cs)
    then have ne: "s \<noteq> []" by simp
    have rl: "length (rest_lines s) < length s"
      using Cons rest_lines_le [of cs] by (simp add: rest_lines_Cons)
    from 1 rl have IH: "re_sub_field key repl True (rest_lines s)
        = concat (map (rewrite_line key repl) (lf_lines (rest_lines s)))" by blast
    show ?thesis
    proof (cases "field_value key (first_line s)")
      case None
      with field_match_first_line [OF assms, of s] have fm: "field_match key (c # cs) = None"
        using Cons by simp
      have "re_sub_field key repl True s = first_line s @ re_sub_field key repl True (rest_lines s)"
        using fm Cons by (simp add: first_line_Cons rest_lines_Cons re_sub_field_copy)
      moreover from None have "rewrite_line key repl (first_line s) = first_line s"
        by (simp add: rewrite_line_def)
      ultimately show ?thesis using IH
        by (simp add: lf_lines_unfold [OF ne])
    next
      case (Some g)
      with field_match_first_line [OF assms, of s]
      have fm: "field_match key (c # cs) = Some (g, rest_lines s)"
        using Cons by simp
      have "re_sub_field key repl True s = repl g @ re_sub_field key repl True (rest_lines s)"
        using fm Cons by simp
      moreover from Some have "rewrite_line key repl (first_line s) = repl g"
        by (simp add: rewrite_line_def)
      ultimately show ?thesis using IH
        by (simp add: lf_lines_unfold [OF ne])
    qed
  qed
qed

lemma contains_iff: "contains s sub \<longleftrightarrow> (\<exists>a c. s = a @ sub @ c)"
proof (induction s)
  case Nil
  then show ?case by auto
next
  case (Cons x xs)
  have sw: "startswith (x # xs) sub \<longleftrightarrow> (\<exists>c. x # xs = sub @ c)"
    unfolding startswith_def by (metis append_eq_conv_conj)
  show ?case
  proof
    assume "contains (x # xs) sub"
    then consider "startswith (x # xs) sub" | "contains xs sub" by auto
    then show "\<exists>a c. x # xs = a @ sub @ c"
    proof cases
      case 1
      with sw obtain c where "x # xs = [] @ sub @ c" by auto
      then show ?thesis by blast
    next
      case 2
      with Cons.IH obtain a c where "xs = a @ sub @ c" by auto
      then have "x # xs = (x # a) @ sub @ c" by simp
      then show ?thesis by blast
    qed
  next
    assume "\<exists>a c. x # xs = a @ sub @ c"
    then obtain a c where e: "x # xs = a @ sub @ c" by blast
    show "contains (x # xs) sub"
    proof (cases a)
      case Nil
      with e have "\<exists>c. x # xs = sub @ c" by auto
      with sw have "startswith (x # xs) sub" by simp
      then show ?thesis by simp
    next
      case (Cons y ys)
      with e have "xs = ys @ sub @ c" by simp
      with Cons.IH show ?thesis by auto
    qed
  qed
qed

lemma namespaced_line_rewrite:
  "namespaced_line pfx = rewrite_line ''UID:'' (\<lambda>g. ''UID:'' @ pfx @ ''-'' @ g @ CRLF)"
  by (rule ext) (simp add: namespaced_line_def rewrite_line_def split: option.splits)

lemma annotated_line_rewrite:
  "annotated_line team_name =
     rewrite_line ''SUMMARY:'' (\<lambda>g. ''SUMMARY:'' @ g @ '' ['' @ team_name @ '']'' @ CRLF)"
  by (rule ext) (simp add: annotated_line_def rewrite_line_def split: option.splits)

lemma prefix_uid_lines:
  "contains ev ''UID:'' \<Longrightarrow> prefix_uid hash ev pfx = concat (map (namespaced_line pfx) (lf_lines ev))"
  by (simp add: prefix_uid_def namespaced_line_rewrite re_sub_field_lines)

lemma annotate_summary_lines:
  "annotate_summary team_name ev = concat (map (annotated_line team_name) (lf_lines ev))"
  by (simp add: annotate_summary_def annotated_line_rewrite re_sub_field_lines)

lemma concat_map_unchanged:
  "list_all (\<lambda>l. f l = l) ls \<Longrightarrow> concat (map f ls) = concat ls"
  by (induction ls) simp_all

lemma lf_lines_append:
  "a = [] \<or> last a = LF \<Longrightarrow> lf_lines (a @ b) = lf_lines a @ lf_lines b"
proof (induction a)
  case Nil
  then show ?case by simp
next
  case (Cons x xs)
  show ?case
  proof (cases "xs = []")
    case True
    with Cons.prems show ?thesis by simp
  next
    case False
    with Cons.prems have "last xs = LF" by simp
    with Cons.IH have IH: "lf_lines (xs @ b) = lf_lines xs @ lf_lines b" by simp
    from False have "lf_lines xs \<noteq> []" by (cases xs) (auto split: list.splits)
    with IH show ?thesis by (cases "lf_lines xs") auto
  qed
qed


subsection \<open>The claims about the rewrites\<close>

text \<open>
  Claim C3, as stated, fails: \<^verbatim>\<open>re.sub\<close> is called without \<^verbatim>\<open>count\<close>, so a
  record with two UID lines and two SUMMARY lines has all four rewritten, not the
  first of each only.
\<close>

theorem second_field_line_rewritten_counterexample:
  "transform_event sample_hash ''liga51127-team425276'' ''TSV''
     (''BEGIN:VEVENT'' @ CRLF @ ''UID:1'' @ CRLF @ ''UID:2'' @ CRLF
      @ ''SUMMARY:A'' @ CRLF @ ''SUMMARY:B'' @ CRLF @ ''END:VEVENT'' @ CRLF)
   = ''BEGIN:VEVENT'' @ CRLF @ ''UID:liga51127-team425276-1'' @ CRLF
      @ ''UID:liga51127-team425276-2'' @ CRLF
      @ ''SUMMARY:A [TSV]'' @ CRLF @ ''SUMMARY:B [TSV]'' @ CRLF @ ''END:VEVENT'' @ CRLF"
  by code_simp

text \<open>
  Claim C3, amended. Both rewrites work line by line: the UID rewrite (taken when the
  text \<^verbatim>\<open>UID:\<close> occurs in the record) turns every line made of \<^verbatim>\<open>UID:\<close>, a
  value of at least one character and CR LF into the same line with the prefix and a
  hyphen before the value; the summary rewrite turns every line made of
  \<^verbatim>\<open>SUMMARY:\<close>, a value of at least one character and CR LF into the same line
  with the team name in brackets after the value. Every other line stays as it is.
\<close>

theorem rewrites_change_field_lines_only:
  "(contains ev ''UID:'' \<longrightarrow>
      prefix_uid hash ev pfx = concat (map (namespaced_line pfx) (lf_lines ev))) \<and>
   annotate_summary team_name ev = concat (map (annotated_line team_name) (lf_lines ev)) \<and>
   (field_value ''UID:'' l = None \<longrightarrow> namespaced_line pfx l = l) \<and>
   (field_value ''SUMMARY:'' l = None \<longrightarrow> annotated_line team_name l = l)"
  by (simp add: prefix_uid_lines annotate_summary_lines namespaced_line_def annotated_line_def)

theorem rewrites_change_field_lines_only_witness:
  "contains (''BEGIN:VEVENT'' @ CRLF @ ''UID:12345'' @ CRLF @ ''SUMMARY:Heimspiel'' @ CRLF
      @ ''END:VEVENT'' @ CRLF) ''UID:''
   \<and> prefix_uid sample_hash (''BEGIN:VEVENT'' @ CRLF @ ''UID:12345'' @ CRLF
      @ ''SUMMARY:Heimspiel'' @ CRLF @ ''END:VEVENT'' @ CRLF) ''liga51127-team425276''
     = ''BEGIN:VEVENT'' @ CRLF @ ''UID:liga51127-team425276-12345'' @ CRLF
      @ ''SUMMARY:Heimspiel'' @ CRLF @ ''END:VEVENT'' @ CRLF
   \<and> annotate_summary ''TSV'' (''BEGIN:VEVENT'' @ CRLF @ ''UID:12345'' @ CRLF
      @ ''SUMMARY:Heimspiel'' @ CRLF @ ''END:VEVENT'' @ CRLF)
     = ''BEGIN:VEVENT'' @ CRLF @ ''UID:12345'' @ CRLF
      @ ''SUMMARY:Heimspiel [TSV]'' @ CRLF @ ''END:VEVENT'' @ CRLF"
proof -
  let ?ev = "''BEGIN:VEVENT'' @ CRLF @ ''UID:12345'' @ CRLF @ ''SUMMARY:Heimspiel'' @ CRLF
      @ ''END:VEVENT'' @ CRLF"
  have c: "contains ?ev ''UID:''" by (simp add: startswith_def)
  have n: "concat (map (namespaced_line ''liga51127-team425276'') (lf_lines ?ev))
     = ''BEGIN:VEVENT'' @ CRLF @ ''UID:liga51127-team425276-12345'' @ CRLF
      @ ''SUMMARY:Heimspiel'' @ CRLF @ ''END:VEVENT'' @ CRLF"
    by (simp add: namespaced_line_def field_value_def startswith_def)
  have a: "concat (map (annotated_line ''TSV'') (lf_lines ?ev))
     = ''BEGIN:VEVENT'' @ CRLF @ ''UID:12345'' @ CRLF
      @ ''SUMMARY:Heimspiel [TSV]'' @ CRLF @ ''END:VEVENT'' @ CRLF"
    by (simp add: annotated_line_def field_value_def startswith_def)
  note t = rewrites_change_field_lines_only [of ?ev sample_hash "''liga51127-team425276''" "''TSV''" "[]"]
  from t c have 1: "prefix_uid sample_hash ?ev ''liga51127-team425276''
      = concat (map (namespaced_line ''liga51127-team425276'') (lf_lines ?ev))"
    by blast
  from t have 2: "annotate_summary ''TSV'' ?ev = concat (map (annotated_line ''TSV'') (lf_lines ?ev))"
    by blast
  show ?thesis
    by (intro conjI c 1 [unfolded n] 2 [unfolded a])
qed

text \<open>
  Claim C5, as stated, fails on a record that holds a second UID line: that other
  line is changed as well.
\<close>

theorem uid_12345_other_uid_line_counterexample:
  "prefix_uid sample_hash
     (''BEGIN:VEVENT'' @ CRLF @ ''UID:12345'' @ CRLF @ ''UID:67890'' @ CRLF @ ''END:VEVENT'' @ CRLF)
     ''liga51127-team425276''
   = ''BEGIN:VEVENT'' @ CRLF @ ''UID:liga51127-team425276-12345'' @ CRLF
      @ ''UID:liga51127-team425276-67890'' @ CRLF @ ''END:VEVENT'' @ CRLF"
  by code_simp

text \<open>
  Claim C5, amended. In a record that holds the line \<^verbatim>\<open>UID:12345\<close> (ended by CR LF,
  at a line start), with the prefix \<^verbatim>\<open>liga51127-team425276\<close> that line becomes
  \<^verbatim>\<open>UID:liga51127-team425276-12345\<close>; every other line is unchanged unless it is
  itself a UID line with a value, which gets the same prefix. With no other such
  line, the rest of the record is unchanged.
\<close>

theorem uid_12345_line_namespaced:
  assumes "pre = [] \<or> last pre = LF"
  shows "prefix_uid hash (pre @ ''UID:12345'' @ CRLF @ post) ''liga51127-team425276'' =
      concat (map (namespaced_line ''liga51127-team425276'') (lf_lines pre))
      @ ''UID:liga51127-team425276-12345'' @ CRLF
      @ concat (map (namespaced_line ''liga51127-team425276'') (lf_lines post))
    \<and> (list_all (\<lambda>l. field_value ''UID:'' l = None) (lf_lines pre @ lf_lines post) \<longrightarrow>
         prefix_uid hash (pre @ ''UID:12345'' @ CRLF @ post) ''liga51127-team425276'' =
           pre @ ''UID:liga51127-team425276-12345'' @ CRLF @ post)"
proof -
  let ?P = "''liga51127-team425276''"
  let ?l = "''UID:12345'' @ CRLF"
  have c: "contains (pre @ ''UID:12345'' @ CRLF @ post) ''UID:''"
    unfolding contains_iff by (rule exI [of _ pre], rule exI [of _ "''12345'' @ CRLF @ post"]) simp
  have l1: "lf_lines (?l @ post) = ?l # lf_lines post"
    using lf_lines_append [of ?l post] by simp
  from assms have ls: "lf_lines (pre @ ?l @ post) = lf_lines pre @ ?l # lf_lines post"
    using lf_lines_append [of pre "?l @ post"] l1 by simp
  have fv: "field_value ''UID:'' ?l = Some ''12345''"
    by (simp add: field_value_iff)
  then have nl: "namespaced_line ?P ?l = ''UID:liga51127-team425276-12345'' @ CRLF"
    by (simp add: namespaced_line_def)
  have main: "prefix_uid hash (pre @ ''UID:12345'' @ CRLF @ post) ?P =
      concat (map (namespaced_line ?P) (lf_lines pre))
      @ ''UID:liga51127-team425276-12345'' @ CRLF
      @ concat (map (namespaced_line ?P) (lf_lines post))"
    using prefix_uid_lines [OF c, of hash ?P] ls nl by simp
  have "prefix_uid hash (pre @ ''UID:12345'' @ CRLF @ post) ?P =
           pre @ ''UID:liga51127-team425276-12345'' @ CRLF @ post"
    if a: "list_all (\<lambda>l. field_value ''UID:'' l = None) (lf_lines pre @ lf_lines post)"
  proof -
    from a have "list_all (\<lambda>l. namespaced_line ?P l = l) (lf_lines pre)"
      and "list_all (\<lambda>l. namespaced_line ?P l = l) (lf_lines post)"
      by (simp_all add: list_all_iff namespaced_line_def)
    then have "concat (map (namespaced_line ?P) (lf_lines pre)) = pre"
      and "concat (map (namespaced_line ?P) (lf_lines post)) = post"
      by (simp_all add: concat_map_unchanged concat_lf_lines)
    with main show ?thesis by simp
  qed
  with main show ?thesis by blast
qed

theorem uid_12345_line_namespaced_witness:
  "prefix_uid sample_hash
     ((''BEGIN:VEVENT'' @ CRLF) @ ''UID:12345'' @ CRLF @ (''SUMMARY:Heimspiel'' @ CRLF @ ''END:VEVENT'' @ CRLF))
     ''liga51127-team425276''
   = (''BEGIN:VEVENT'' @ CRLF) @ ''UID:liga51127-team425276-12345'' @ CRLF
      @ (''SUMMARY:Heimspiel'' @ CRLF @ ''END:VEVENT'' @ CRLF)"
proof -
  let ?pre = "''BEGIN:VEVENT'' @ CRLF"
  let ?post = "''SUMMARY:Heimspiel'' @ CRLF @ ''END:VEVENT'' @ CRLF"
  have p: "?pre = [] \<or> last ?pre = LF" by simp
  have l: "list_all (\<lambda>l. field_value ''UID:'' l = None) (lf_lines ?pre @ lf_lines ?post)"
    by (simp add: field_value_def startswith_def)
  from uid_12345_line_namespaced [OF p, of sample_hash ?post] l show ?thesis by blast
qed

text \<open>
  Claim C10. A record in which the text \<^verbatim>\<open>UID:\<close> occurs, but in which no line is
  made of \<^verbatim>\<open>UID:\<close>, at least one more character and CR LF, comes back unchanged:
  no prefix is put in and no UID is synthesized.
\<close>

theorem uid_text_without_uid_line_unchanged:
  assumes "contains ev ''UID:''"
    and "list_all (\<lambda>l. field_value ''UID:'' l = None) (lf_lines ev)"
  shows "prefix_uid hash ev pfx = ev"
proof -
  from assms(2) have "list_all (\<lambda>l. namespaced_line pfx l = l) (lf_lines ev)"
    by (simp add: list_all_iff namespaced_line_def)
  then have "concat (map (namespaced_line pfx) (lf_lines ev)) = concat (lf_lines ev)"
    by (rule concat_map_unchanged)
  with assms(1) show ?thesis by (simp add: prefix_uid_lines concat_lf_lines)
qed

theorem uid_text_without_uid_line_unchanged_witness:
  "contains (''BEGIN:VEVENT'' @ CRLF @ ''DTSTART:20250101T100000'' @ CRLF
      @ ''DESCRIPTION:see UID:7'' @ CRLF @ ''END:VEVENT'' @ CRLF) ''UID:''
   \<and> list_all (\<lambda>l. field_value ''UID:'' l = None)
       (lf_lines (''BEGIN:VEVENT'' @ CRLF @ ''DTSTART:20250101T100000'' @ CRLF
      @ ''DESCRIPTION:see UID:7'' @ CRLF @ ''END:VEVENT'' @ CRLF))
   \<and> prefix_uid sample_hash (''BEGIN:VEVENT'' @ CRLF @ ''DTSTART:20250101T100000'' @ CRLF
      @ ''DESCRIPTION:see UID:7'' @ CRLF @ ''END:VEVENT'' @ CRLF) ''liga51127-team425276''
     = ''BEGIN:VEVENT'' @ CRLF @ ''DTSTART:20250101T100000'' @ CRLF
      @ ''DESCRIPTION:see UID:7'' @ CRLF @ ''END:VEVENT'' @ CRLF"
proof -
  let ?ev = "''BEGIN:VEVENT'' @ CRLF @ ''DTSTART:20250101T100000'' @ CRLF
      @ ''DESCRIPTION:see UID:7'' @ CRLF @ ''END:VEVENT'' @ CRLF"
  have c: "contains ?ev ''UID:''" by (simp add: startswith_def)
  have l: "list_all (\<lambda>l. field_value ''UID:'' l = None) (lf_lines ?ev)"
    by (simp add: field_value_def startswith_def)
  from uid_text_without_uid_line_unchanged [OF c l, of sample_hash "''liga51127-team425276''"] c l
  show ?thesis by simp
qed

subsection \<open>The synthesized UID\<close>

lemma insert_uid_done: "insert_uid uid True lines = lines"
  by (induction lines) simp_all

lemma insert_uid_first:
  "list_all (\<lambda>l. \<not> startswith l ''DTSTART'') pre \<Longrightarrow> startswith d ''DTSTART'' \<Longrightarrow>
     insert_uid uid False (pre @ d # post) = pre @ d # (''UID:'' @ uid) # post"
  by (induction pre) (simp_all add: insert_uid_done)

lemma first_dtstart:
  "list_ex P ls \<Longrightarrow> \<exists>pre d post. ls = pre @ d # post \<and> list_all (\<lambda>l. \<not> P l) pre \<and> P d"
proof (induction ls)
  case Nil
  then show ?case by simp
next
  case (Cons x xs)
  show ?case
  proof (cases "P x")
    case True
    then have "x # xs = [] @ x # xs \<and> list_all (\<lambda>l. \<not> P l) [] \<and> P x" by simp
    then show ?thesis by blast
  next
    case False
    with Cons obtain pre d post where "xs = pre @ d # post" "list_all (\<lambda>l. \<not> P l) pre" "P d"
      by auto
    with False have "x # xs = (x # pre) @ d # post \<and> list_all (\<lambda>l. \<not> P l) (x # pre) \<and> P d"
      by simp
    then show ?thesis by blast
  qed
qed


text \<open>
  Claim C6, as stated, fails: the guard of line 88 looks for the text \<^verbatim>\<open>UID:\<close>
  anywhere in the record. The record below has no UID field (no line begins with
  \<^verbatim>\<open>UID:\<close>) and a line that begins with \<^verbatim>\<open>DTSTART\<close>, and no UID line is
  inserted: the text \<^verbatim>\<open>UID:\<close> stands inside its LOCATION field.
\<close>

theorem uid_inside_field_no_synthesis_counterexample:
  "list_all (\<lambda>l. \<not> startswith l ''UID:'')
      (split_crlf (''BEGIN:VEVENT'' @ CRLF @ ''DTSTART:20250101T100000'' @ CRLF
         @ ''LOCATION:Halle UID:B'' @ CRLF @ ''END:VEVENT'' @ CRLF))
   \<and> list_ex (\<lambda>l. startswith l ''DTSTART'')
      (split_crlf (''BEGIN:VEVENT'' @ CRLF @ ''DTSTART:20250101T100000'' @ CRLF
         @ ''LOCATION:Halle UID:B'' @ CRLF @ ''END:VEVENT'' @ CRLF))
   \<and> prefix_uid sample_hash (''BEGIN:VEVENT'' @ CRLF @ ''DTSTART:20250101T100000'' @ CRLF
         @ ''LOCATION:Halle UID:B'' @ CRLF @ ''END:VEVENT'' @ CRLF) ''liga51127-team425276''
     = ''BEGIN:VEVENT'' @ CRLF @ ''DTSTART:20250101T100000'' @ CRLF
         @ ''LOCATION:Halle UID:B'' @ CRLF @ ''END:VEVENT'' @ CRLF"
  by code_simp

text \<open>
  Claim C6, amended. For every record in which the text \<^verbatim>\<open>UID:\<close> occurs nowhere and
  of which a line (between CR LF) begins with \<^verbatim>\<open>DTSTART\<close>, the transformer
  inserts one line right after the first such line and changes nothing else: the
  result is the lines of the record joined by CR LF, with the new line
  \<^verbatim>\<open>UID:\<close> + prefix + \<^verbatim>\<open>-\<close> + the decimal text of the absolute value of the
  hash of the record + \<^verbatim>\<open>@basketball-bund.net\<close> after the first DTSTART line. The
  value is a function of the run's hash function, the record and the prefix, so the
  same input gives the same value in one run.
\<close>

theorem uid_synthesized_after_first_dtstart:
  assumes "\<not> contains ev ''UID:''"
    and "list_ex (\<lambda>l. startswith l ''DTSTART'') (split_crlf ev)"
  shows "\<exists>pre d post.
      split_crlf ev = pre @ d # post \<and>
      list_all (\<lambda>l. \<not> startswith l ''DTSTART'') pre \<and> startswith d ''DTSTART'' \<and>
      prefix_uid hash ev pfx =
        join CRLF (pre @ d
          # (''UID:'' @ pfx @ ''-'' @ str_int (abs (hash ev)) @ ''@basketball-bund.net'')
          # post)"
proof -
  from first_dtstart [OF assms(2)] obtain pre d post
    where s: "split_crlf ev = pre @ d # post"
      and p: "list_all (\<lambda>l. \<not> startswith l ''DTSTART'') pre" and d: "startswith d ''DTSTART''"
    by blast
  from assms(1) s insert_uid_first [OF p d]
  have "prefix_uid hash ev pfx =
        join CRLF (pre @ d
          # (''UID:'' @ pfx @ ''-'' @ str_int (abs (hash ev)) @ ''@basketball-bund.net'')
          # post)"
    by (simp add: prefix_uid_def Let_def)
  with s p d show ?thesis by blast
qed

theorem uid_synthesized_after_first_dtstart_witness:
  "\<not> contains (''BEGIN:VEVENT'' @ CRLF @ ''DTSTART:20250101T100000'' @ CRLF
         @ ''DTSTART:20250102T100000'' @ CRLF @ ''END:VEVENT'' @ CRLF) ''UID:''
   \<and> (\<exists>pre d post.
      split_crlf (''BEGIN:VEVENT'' @ CRLF @ ''DTSTART:20250101T100000'' @ CRLF
         @ ''DTSTART:20250102T100000'' @ CRLF @ ''END:VEVENT'' @ CRLF) = pre @ d # post \<and>
      list_all (\<lambda>l. \<not> startswith l ''DTSTART'') pre \<and> startswith d ''DTSTART'' \<and>
      prefix_uid sample_hash (''BEGIN:VEVENT'' @ CRLF @ ''DTSTART:20250101T100000'' @ CRLF
         @ ''DTSTART:20250102T100000'' @ CRLF @ ''END:VEVENT'' @ CRLF) ''liga51127-team425276'' =
        join CRLF (pre @ d
          # (''UID:'' @ ''liga51127-team425276'' @ ''-'' @ str_int (abs (sample_hash (''BEGIN:VEVENT'' @ CRLF @ ''DTSTART:20250101T100000'' @ CRLF
         @ ''DTSTART:20250102T100000'' @ CRLF @ ''END:VEVENT'' @ CRLF))) @ ''@basketball-bund.net'')
          # post))
   \<and> prefix_uid sample_hash (''BEGIN:VEVENT'' @ CRLF @ ''DTSTART:20250101T100000'' @ CRLF
         @ ''DTSTART:20250102T100000'' @ CRLF @ ''END:VEVENT'' @ CRLF) ''liga51127-team425276''
     = ''BEGIN:VEVENT'' @ CRLF @ ''DTSTART:20250101T100000'' @ CRLF
         @ ''UID:liga51127-team425276-76@basketball-bund.net'' @ CRLF
         @ ''DTSTART:20250102T100000'' @ CRLF @ ''END:VEVENT'' @ CRLF"
proof -
  let ?ev = "''BEGIN:VEVENT'' @ CRLF @ ''DTSTART:20250101T100000'' @ CRLF
         @ ''DTSTART:20250102T100000'' @ CRLF @ ''END:VEVENT'' @ CRLF"
  have c: "\<not> contains ?ev ''UID:''" by (simp add: startswith_def)
  have d: "list_ex (\<lambda>l. startswith l ''DTSTART'') (split_crlf ?ev)"
    by (simp add: startswith_def)
  have e: "prefix_uid sample_hash ?ev ''liga51127-team425276''
     = ''BEGIN:VEVENT'' @ CRLF @ ''DTSTART:20250101T100000'' @ CRLF
         @ ''UID:liga51127-team425276-76@basketball-bund.net'' @ CRLF
         @ ''DTSTART:20250102T100000'' @ CRLF @ ''END:VEVENT'' @ CRLF"
    by code_simp
  show ?thesis
    by (intro conjI c e uid_synthesized_after_first_dtstart [OF c d])
qed

section \<open>Properties of the identifier resolver\<close>

lemma exact_pass_find:
  "exact_pass wanted cands =
     (case find (\<lambda>(label_clean, val, orig). label_clean = wanted) cands of
        Some (label_clean, val, orig) \<Rightarrow> Some val
      | None \<Rightarrow> None)"
  by (induction cands) auto

lemma contains_pass_find:
  "contains_pass wanted cands =
     (case find (\<lambda>(label_clean, val, orig).
                   contains label_clean wanted \<or> contains wanted label_clean) cands of
        Some (label_clean, val, orig) \<Rightarrow> Some val
      | None \<Rightarrow> None)"
proof (induction cands)
  case Nil
  show ?case by simp
next
  case (Cons c cands)
  obtain l v org where c: "c = (l, v, org)" by (cases c)
  show ?case
    by (cases "contains l wanted \<or> contains wanted l") (simp_all add: c Cons.IH)
qed

lemma match_team_find:
  "match_team L options team_name liga_id =
     (case find (\<lambda>(label_clean, val, orig). label_clean = norm L team_name)
             (candidates_of L options) of
        Some (label_clean, val, orig) \<Rightarrow> Inr val
      | None \<Rightarrow>
          (case find (\<lambda>(label_clean, val, orig).
                        contains label_clean (norm L team_name) \<or>
                        contains (norm L team_name) label_clean)
                  (candidates_of L options) of
             Some (label_clean, val, orig) \<Rightarrow> Inr val
           | None \<Rightarrow>
               Inl (RuntimeError (not_found_message team_name liga_id (candidates_of L options)))))"
  by (simp add: match_team_def Let_def exact_pass_find contains_pass_find split: option.splits)

lemma strip_id: "s \<noteq> [] \<Longrightarrow> \<not> sp (hd s) \<Longrightarrow> \<not> sp (last s) \<Longrightarrow> strip sp s = s"
proof -
  assume a: "s \<noteq> []" "\<not> sp (hd s)" "\<not> sp (last s)"
  then have 1: "dropWhile sp s = s" by (cases s) simp_all
  from a have "rev s \<noteq> []" "\<not> sp (hd (rev s))" by (simp_all add: hd_rev)
  then have "dropWhile sp (rev s) = rev s" by (cases "rev s") simp_all
  with 1 show ?thesis by (simp add: strip_def)
qed

lemma example_first:
  assumes "list_all (\<lambda>c. \<not> isspace L c) ''0123456789''"
  shows "match_team L
      [(''425276'', ''TSV Gromb'' @ [CHR 0xFC] @ ''hl 2''),
       (''425277'', ''TSV Gromb'' @ [CHR 0xFC] @ ''hl'')]
      (''TSV Gromb'' @ [CHR 0xFC] @ ''hl 2'') liga_id = Inr ''425276''"
proof -
  from assms have d: "\<not> isspace L CHR ''4''" "\<not> isspace L CHR ''6''" "\<not> isspace L CHR ''7''"
    by simp_all
  have s1: "strip (isspace L) ''425276'' = ''425276''"
    using d by (intro strip_id) simp_all
  have t1: "strip_tags (''TSV Gromb'' @ [CHR 0xFC] @ ''hl 2'') = ''TSV Gromb'' @ [CHR 0xFC] @ ''hl 2''"
    by simp
  show ?thesis
    unfolding match_team_def Let_def candidates_of.simps s1 t1
    by simp
qed


text \<open>
  Claim C4. Over the candidates kept from the page's options (in document order), the
  resolver returns the value of the first candidate whose normalized label equals the
  normalized wanted name; only when there is none, the value of the first candidate
  whose normalized label contains the normalized wanted name or is contained in it;
  and it fails when there is none either. For the options
  \<open>(425276, TSV Grombuehl 2)\<close> and \<open>(425277, TSV Grombuehl)\<close>, written with the
  umlaut, and the wanted name \<open>TSV Grombuehl 2\<close> the result is \<open>425276\<close>, for every
  library whose whitespace test holds of no digit.
\<close>

theorem fetch_team_id_two_tier:
  assumes "index_options E liga_id = Inr options"
  shows "fetch_team_id L E team_name liga_id =
     (case find (\<lambda>(label_clean, val, orig). label_clean = norm L team_name)
             (candidates_of L options) of
        Some (label_clean, val, orig) \<Rightarrow> Inr val
      | None \<Rightarrow>
          (case find (\<lambda>(label_clean, val, orig).
                        contains label_clean (norm L team_name) \<or>
                        contains (norm L team_name) label_clean)
                  (candidates_of L options) of
             Some (label_clean, val, orig) \<Rightarrow> Inr val
           | None \<Rightarrow>
               Inl (RuntimeError (not_found_message team_name liga_id (candidates_of L options)))))
    \<and> (list_all (\<lambda>c. \<not> isspace L c) ''0123456789'' \<and>
        options = [(''425276'', ''TSV Gromb'' @ [CHR 0xFC] @ ''hl 2''),
                   (''425277'', ''TSV Gromb'' @ [CHR 0xFC] @ ''hl'')] \<and>
        team_name = ''TSV Gromb'' @ [CHR 0xFC] @ ''hl 2''
        \<longrightarrow> fetch_team_id L E team_name liga_id = Inr ''425276'')"
  using assms example_first [of L liga_id]
  by (simp add: fetch_team_id_def match_team_find)

theorem fetch_team_id_two_tier_witness:
  "list_all (\<lambda>c. \<not> isspace py_ascii c) ''0123456789''
   \<and> fetch_team_id py_ascii
       (sample_env [(''425276'', ''TSV Gromb'' @ [CHR 0xFC] @ ''hl 2''),
                    (''425277'', ''TSV Gromb'' @ [CHR 0xFC] @ ''hl'')] [])
       (''TSV Gromb'' @ [CHR 0xFC] @ ''hl 2'') ''51127'' = Inr ''425276''
   \<and> fetch_team_id py_ascii
       (sample_env [(''-1'', ''- alle Mannschaften -''), (''11'', ''TSV Test 2''),
                    (''12'', ''<b>TSV  Test</b>''), (''13'', ''Test'')] [])
       ''tsv test'' ''51127'' = Inr ''12''
   \<and> fetch_team_id py_ascii
       (sample_env [(''-1'', ''- alle Mannschaften -''), (''11'', ''TSV Test 2''),
                    (''12'', ''<b>TSV  Test</b>''), (''13'', ''Test'')] [])
       ''Test 2'' ''51127'' = Inr ''11''"
proof -
  let ?o1 = "[(''425276'', ''TSV Gromb'' @ [CHR 0xFC] @ ''hl 2''),
              (''425277'', ''TSV Gromb'' @ [CHR 0xFC] @ ''hl'')]"
  let ?o2 = "[(''-1'', ''- alle Mannschaften -''), (''11'', ''TSV Test 2''),
              (''12'', ''<b>TSV  Test</b>''), (''13'', ''Test'')]"
  have h1: "index_options (sample_env ?o1 []) ''51127'' = Inr ?o1"
    by (simp add: sample_env_def)
  have h2: "index_options (sample_env ?o2 []) ''51127'' = Inr ?o2"
    by (simp add: sample_env_def)
  have d: "list_all (\<lambda>c. \<not> isspace py_ascii c) ''0123456789''"
    by (simp add: py_ascii_def ascii_isspace_def)
  have c2: "candidates_of py_ascii ?o2 =
      [(''tsv test 2'', ''11'', ''TSV Test 2''), (''tsv test'', ''12'', ''TSV  Test''),
       (''test'', ''13'', ''Test'')]"
    by code_simp
  have n1: "norm py_ascii ''tsv test'' = ''tsv test''" by code_simp
  have n2: "norm py_ascii ''Test 2'' = ''test 2''" by code_simp
  from fetch_team_id_two_tier [OF h1, of py_ascii "''TSV Gromb'' @ [CHR 0xFC] @ ''hl 2''"] d
  have 1: "fetch_team_id py_ascii (sample_env ?o1 [])
       (''TSV Gromb'' @ [CHR 0xFC] @ ''hl 2'') ''51127'' = Inr ''425276''"
    by blast
  have 2: "fetch_team_id py_ascii (sample_env ?o2 []) ''tsv test'' ''51127'' = Inr ''12''"
    using fetch_team_id_two_tier [OF h2, of py_ascii "''tsv test''"] unfolding c2 n1
    by (simp add: startswith_def)
  have 3: "fetch_team_id py_ascii (sample_env ?o2 []) ''Test 2'' ''51127'' = Inr ''11''"
    using fetch_team_id_two_tier [OF h2, of py_ascii "''Test 2''"] unfolding c2 n2
    by (simp add: startswith_def)
  show ?thesis by (intro conjI d 1 2 3)
qed

lemma contains_mid: "contains (a @ sub @ c) sub"
  unfolding contains_iff by blast

lemma join_member: "l \<in> set ls \<Longrightarrow> \<exists>a c. join sep ls = a @ l @ c"
proof (induction sep ls rule: join.induct)
  case (1 sep)
  then show ?case by simp
next
  case (2 sep x)
  then have "join sep [x] = [] @ l @ []" by simp
  then show ?case by blast
next
  case (3 sep x y ys)
  show ?case
  proof (cases "l = x")
    case True
    then have "join sep (x # y # ys) = [] @ l @ (sep @ join sep (y # ys))" by simp
    then show ?thesis by blast
  next
    case False
    with 3 obtain a c where "join sep (y # ys) = a @ l @ c" by auto
    then have "join sep (x # y # ys) = (x @ sep @ a) @ l @ c" by simp
    then show ?thesis by blast
  qed
qed

lemma message_holds_sample:
  assumes "l \<in> set (sample_of cands)"
  shows "contains (not_found_message team_name liga_id cands) l"
proof -
  from join_member [OF assms, of "'', ''"] obtain a c
    where j: "join '', '' (sample_of cands) = a @ l @ c" by blast
  have "not_found_message team_name liga_id cands =
      (''Team '' @ [CHR 0x27] @ team_name @ [CHR 0x27] @ '' nicht im Dropdown gefunden (liga_id=''
       @ liga_id @ ''). Beispieloptionen: '' @ a) @ l @ c"
    by (simp add: not_found_message_def j)
  then show ?thesis by (metis contains_mid)
qed

lemma message_holds_name: "contains (not_found_message team_name liga_id cands) team_name"
proof -
  have "not_found_message team_name liga_id cands =
      (''Team '' @ [CHR 0x27]) @ team_name @ ([CHR 0x27] @ '' nicht im Dropdown gefunden (liga_id=''
       @ liga_id @ ''). Beispieloptionen: '' @ join '', '' (sample_of cands))"
    by (simp add: not_found_message_def)
  then show ?thesis by (metis contains_mid)
qed

lemma message_holds_liga: "contains (not_found_message team_name liga_id cands) liga_id"
proof -
  have "not_found_message team_name liga_id cands =
      (''Team '' @ [CHR 0x27] @ team_name @ [CHR 0x27] @ '' nicht im Dropdown gefunden (liga_id='')
       @ liga_id @ (''). Beispieloptionen: '' @ join '', '' (sample_of cands))"
    by (simp add: not_found_message_def)
  then show ?thesis by (metis contains_mid)
qed

lemma passes_None:
  "list_all (\<lambda>(label_clean, val, orig).
           label_clean \<noteq> wanted \<and> \<not> contains label_clean wanted \<and>
           \<not> contains wanted label_clean) cands \<Longrightarrow>
   exact_pass wanted cands = None \<and> contains_pass wanted cands = None"
  by (induction cands) auto


text \<open>
  Claim C9. When no candidate matches in the exact pass or in the substring pass, the
  resolver returns no team id: it fails with the \<^verbatim>\<open>RuntimeError\<close> whose message
  is made of the attempted name, the league id and the labels of the first candidates,
  at most 10 of them and at least one when there is a candidate.
\<close>

theorem fetch_team_id_not_found:
  assumes "index_options E liga_id = Inr options"
    and "list_all (\<lambda>(label_clean, val, orig).
           label_clean \<noteq> norm L team_name \<and>
           \<not> contains label_clean (norm L team_name) \<and>
           \<not> contains (norm L team_name) label_clean) (candidates_of L options)"
  shows "fetch_team_id L E team_name liga_id =
      Inl (RuntimeError (not_found_message team_name liga_id (candidates_of L options)))
    \<and> not_found_message team_name liga_id (candidates_of L options) =
        ''Team '' @ [CHR 0x27] @ team_name @ [CHR 0x27]
        @ '' nicht im Dropdown gefunden (liga_id='' @ liga_id @ ''). Beispieloptionen: ''
        @ join '', '' (sample_of (candidates_of L options))
    \<and> contains (not_found_message team_name liga_id (candidates_of L options)) team_name
    \<and> contains (not_found_message team_name liga_id (candidates_of L options)) liga_id
    \<and> list_all (contains (not_found_message team_name liga_id (candidates_of L options)))
         (sample_of (candidates_of L options))
    \<and> sample_of (candidates_of L options)
         = map (\<lambda>(label_clean, val, orig). orig) (take 10 (candidates_of L options))
    \<and> length (sample_of (candidates_of L options)) \<le> 10
    \<and> (candidates_of L options \<noteq> [] \<longrightarrow> sample_of (candidates_of L options) \<noteq> [])"
proof -
  let ?c = "candidates_of L options"
  from passes_None [OF assms(2)] have e: "exact_pass (norm L team_name) ?c = None"
    and c: "contains_pass (norm L team_name) ?c = None"
    by simp_all
  from assms(1) e c have 1: "fetch_team_id L E team_name liga_id =
      Inl (RuntimeError (not_found_message team_name liga_id ?c))"
    by (simp add: fetch_team_id_def match_team_def Let_def)
  have 2: "list_all (contains (not_found_message team_name liga_id ?c)) (sample_of ?c)"
    by (simp add: list_all_iff message_holds_sample)
  have 3: "?c \<noteq> [] \<longrightarrow> sample_of ?c \<noteq> []"
    by (cases ?c) (simp_all add: sample_of_def)
  have 4: "not_found_message team_name liga_id ?c =
        ''Team '' @ [CHR 0x27] @ team_name @ [CHR 0x27]
        @ '' nicht im Dropdown gefunden (liga_id='' @ liga_id @ ''). Beispieloptionen: ''
        @ join '', '' (sample_of ?c)"
    by (simp add: not_found_message_def)
  have 5: "sample_of ?c = map (\<lambda>(label_clean, val, orig). orig) (take 10 ?c)"
    by (simp add: sample_of_def)
  have 6: "length (sample_of ?c) \<le> 10"
    by (simp add: sample_of_def)
  show ?thesis
    by (intro conjI 1 4 message_holds_name message_holds_liga 2 5 6 3)
qed

theorem fetch_team_id_not_found_witness:
  "fetch_team_id py_ascii
       (sample_env [(''-1'', ''- alle Mannschaften -''), (''11'', ''TSV Test 2''),
                    (''12'', ''TSV Test'')] [])
       ''SC Heuchelhof'' ''51127''
     = Inl (RuntimeError (''Team '' @ [CHR 0x27] @ ''SC Heuchelhof'' @ [CHR 0x27]
         @ '' nicht im Dropdown gefunden (liga_id=51127). Beispieloptionen: TSV Test 2, TSV Test''))"
proof -
  let ?o = "[(''-1'', ''- alle Mannschaften -''), (''11'', ''TSV Test 2''), (''12'', ''TSV Test'')]"
  have h: "index_options (sample_env ?o []) ''51127'' = Inr ?o"
    by (simp add: sample_env_def)
  have c: "candidates_of py_ascii ?o =
      [(''tsv test 2'', ''11'', ''TSV Test 2''), (''tsv test'', ''12'', ''TSV Test'')]"
    by code_simp
  have n: "norm py_ascii ''SC Heuchelhof'' = ''sc heuchelhof''" by code_simp
  have a: "list_all (\<lambda>(label_clean, val, orig).
           label_clean \<noteq> norm py_ascii ''SC Heuchelhof'' \<and>
           \<not> contains label_clean (norm py_ascii ''SC Heuchelhof'') \<and>
           \<not> contains (norm py_ascii ''SC Heuchelhof'') label_clean) (candidates_of py_ascii ?o)"
    unfolding c n by (simp add: startswith_def)
  from fetch_team_id_not_found [OF h a]
  have "fetch_team_id py_ascii (sample_env ?o []) ''SC Heuchelhof'' ''51127'' =
      Inl (RuntimeError (not_found_message ''SC Heuchelhof'' ''51127'' (candidates_of py_ascii ?o)))"
    by blast
  then show ?thesis
    unfolding c by (simp add: not_found_message_def sample_of_def)
qed

section \<open>Properties of the text normalizer\<close>























section \<open>Properties of the run\<close>

subsection \<open>The UID values of a transformed record\<close>












subsection \<open>The records of the output\<close>





text \<open>
  In the example every configured name stands on its page as it is configured, so the
  exact pass finds it whatever the library does to the name, as long as its whitespace
  test holds of no digit.
\<close>

lemma league_page_resolved:
  assumes "list_all (\<lambda>c. \<not> isspace L c) ''0123456789''"
  shows "map (\<lambda>(team_name, liga_id). fetch_team_id L rescheduled_env team_name liga_id) TARGETS
     = [Inr ''425276'', Inr ''425277'', Inr ''425278'', Inr ''425279'']"
proof -
  from assms have d: "\<not> isspace L CHR ''4''" "\<not> isspace L CHR ''6''" "\<not> isspace L CHR ''7''"
    "\<not> isspace L CHR ''8''" "\<not> isspace L CHR ''9''"
    by simp_all
  have s: "strip (isspace L) ''425276'' = ''425276''" "strip (isspace L) ''425277'' = ''425277''"
    "strip (isspace L) ''425278'' = ''425278''" "strip (isspace L) ''425279'' = ''425279''"
    using d by (simp_all add: strip_id)
  show ?thesis
    by (simp add: TARGETS_def fetch_team_id_def rescheduled_env_def league_page_def
        match_team_def Let_def s)
qed





end
